theory Spec2Isabelle
  imports Main "HOL-Library.Sublist"
begin

section \<open>Python strings\<close>

text \<open>
  A Python \<^verbatim>\<open>str\<close> is a sequence of Unicode code points, so it is modelled as a list of
  natural numbers, one per code point. \<open>py\<close> turns an Isabelle string literal into
  such a list, for writing concrete inputs.
\<close>

type_synonym pystr = "nat list"

definition py :: "string \<Rightarrow> pystr" where
  "py cs = map of_char cs"

text \<open>
  \<^verbatim>\<open>str.isspace\<close> on one code point, which is also the set that \<^verbatim>\<open>str.strip()\<close>
  removes: U+0009..U+000D, U+001C..U+0020, U+0085, U+00A0, U+1680, U+2000..U+200A,
  U+2028, U+2029, U+202F, U+205F, U+3000.
\<close>

definition isspace :: "nat \<Rightarrow> bool" where
  "isspace c \<longleftrightarrow>
     (9 \<le> c \<and> c \<le> 13) \<or> (28 \<le> c \<and> c \<le> 32) \<or> c = 133 \<or> c = 160 \<or> c = 5760 \<or>
     (8192 \<le> c \<and> c \<le> 8202) \<or> c = 8232 \<or> c = 8233 \<or> c = 8239 \<or> c = 8287 \<or>
     c = 12288"

text \<open>
  The line boundaries of \<^verbatim>\<open>str.splitlines\<close>: LF, VT, FF, CR, FS, GS, RS, NEL, LS, PS
  (and CR LF taken as one boundary).
\<close>

definition is_linebreak :: "nat \<Rightarrow> bool" where
  "is_linebreak c \<longleftrightarrow>
     (10 \<le> c \<and> c \<le> 13) \<or> (28 \<le> c \<and> c \<le> 30) \<or> c = 133 \<or> c = 8232 \<or> c = 8233"

text \<open>The character class \<^verbatim>\<open>[ \t]\<close> of the regular expressions of \<^verbatim>\<open>textwrap\<close>.\<close>

definition is_sp_tab :: "nat \<Rightarrow> bool" where
  "is_sp_tab c \<longleftrightarrow> c = 32 \<or> c = 9"

text \<open>\<^verbatim>\<open>s.strip()\<close>: whitespace removed from both ends.\<close>

definition strip :: "pystr \<Rightarrow> pystr" where
  "strip s = rev (dropWhile isspace (rev (dropWhile isspace s)))"

text \<open>
  \<^verbatim>\<open>s.splitlines(keepends)\<close>. The empty string has no line; a line boundary at the very
  end opens no further line; with \<open>keepends\<close> each line keeps its boundary.
\<close>

fun splitlines :: "bool \<Rightarrow> pystr \<Rightarrow> pystr list" where
  "splitlines keepends [] = []"
| "splitlines keepends (c # cs) =
     (if is_linebreak c then
        (case cs of
           [] \<Rightarrow> [if keepends then [c] else []]
         | d # ds \<Rightarrow>
             if c = 13 \<and> d = 10
             then (if keepends then [c, d] else []) # splitlines keepends ds
             else (if keepends then [c] else []) # splitlines keepends cs)
      else
        (case splitlines keepends cs of
           [] \<Rightarrow> [[c]]
         | l # ls \<Rightarrow> (c # l) # ls))"

text \<open>\<^verbatim>\<open>s.split('\n')\<close> and \<^verbatim>\<open>'\n'.join(lines)\<close>.\<close>

fun split_nl :: "pystr \<Rightarrow> pystr list" where
  "split_nl [] = [[]]"
| "split_nl (c # cs) =
     (if c = 10 then [] # split_nl cs
      else (case split_nl cs of
              [] \<Rightarrow> [[c]]
            | l # ls \<Rightarrow> (c # l) # ls))"

fun join_nl :: "pystr list \<Rightarrow> pystr" where
  "join_nl [] = []"
| "join_nl [l] = l"
| "join_nl (l # ls) = l @ 10 # join_nl ls"

text \<open>
  \<^verbatim>\<open>sub in s\<close>, \<^verbatim>\<open>s.find(sub)\<close> (the lowest index, or -1), \<^verbatim>\<open>s.count(sub)\<close> (occurrences
  that do not overlap, scanning from the left), \<^verbatim>\<open>s[:k]\<close> (a negative \<open>k\<close> counts from the
  end); \<^verbatim>\<open>s.startswith(sub)\<close> is \<open>prefix sub s\<close>.
\<close>

fun py_in :: "pystr \<Rightarrow> pystr \<Rightarrow> bool" where
  "py_in sub [] = (sub = [])"
| "py_in sub (c # cs) = (prefix sub (c # cs) \<or> py_in sub cs)"

fun py_find :: "pystr \<Rightarrow> pystr \<Rightarrow> int" where
  "py_find sub [] = (if sub = [] then 0 else - 1)"
| "py_find sub (c # cs) =
     (if prefix sub (c # cs) then 0
      else (let r = py_find sub cs in if r < 0 then - 1 else r + 1))"

fun count_from :: "pystr \<Rightarrow> nat \<Rightarrow> pystr \<Rightarrow> nat" where
  "count_from sub skip [] = 0"
| "count_from sub skip (c # cs) =
     (if 0 < skip then count_from sub (skip - 1) cs
      else if prefix sub (c # cs) then Suc (count_from sub (length sub - 1) cs)
      else count_from sub 0 cs)"

definition py_count :: "pystr \<Rightarrow> pystr \<Rightarrow> nat" where
  "py_count sub s = (if sub = [] then length s + 1 else count_from sub 0 s)"

definition slice_to :: "pystr \<Rightarrow> int \<Rightarrow> pystr" where
  "slice_to s k = (if k < 0 then take (nat (int (length s) + k)) s else take (nat k) s)"

section \<open>The library functions of textwrap\<close>

text \<open>
  \<^verbatim>\<open>textwrap.dedent\<close> (CPython 3.11, Lib/textwrap.py):
  \<^verbatim>\<open>
  _whitespace_only_re = re.compile('^[ \t]+$', re.MULTILINE)
  _leading_whitespace_re = re.compile('(^[ \t]*)(?:[^ \t\n])', re.MULTILINE)

  def dedent(text):
      margin = None
      text = _whitespace_only_re.sub('', text)
      indents = _leading_whitespace_re.findall(text)
      for indent in indents:
          if margin is None:
              margin = indent
          elif indent.startswith(margin):
              pass
          elif margin.startswith(indent):
              margin = indent
          else:
              for i, (x, y) in enumerate(zip(margin, indent)):
                  if x != y:
                      margin = margin[:i]
                      break
      if margin:
          text = re.sub(r'(?m)^' + margin, '', text)
      return text
  \<close>
  In multi-line mode \<^verbatim>\<open>^\<close> and \<^verbatim>\<open>$\<close> match at the start of the text, at its end and
  around every \<^verbatim>\<open>\n\<close>, and no class of the three expressions contains \<^verbatim>\<open>\n\<close>, so each
  expression works on the lines of \<^verbatim>\<open>text.split('\n')\<close> one by one:
  \<^item> \<open>blank_ws_only\<close>: a line made of spaces and tabs only becomes empty;
  \<^item> \<open>indents_of\<close>: every line that has a character other than space and tab gives its
    leading run of spaces and tabs;
  \<^item> \<open>margin_step\<close>: the body of the \<^verbatim>\<open>for\<close> loop, \<open>mismatch_cut\<close> its inner loop;
  \<^item> \<open>remove_margin\<close>: a line that starts with the margin loses it.
\<close>

definition blank_ws_only :: "pystr \<Rightarrow> pystr" where
  "blank_ws_only l = (if l \<noteq> [] \<and> list_all is_sp_tab l then [] else l)"

definition indents_of :: "pystr list \<Rightarrow> pystr list" where
  "indents_of ls = map (takeWhile is_sp_tab) (filter (\<lambda>l. dropWhile is_sp_tab l \<noteq> []) ls)"

fun mismatch_cut :: "pystr \<Rightarrow> pystr \<Rightarrow> pystr" where
  "mismatch_cut (x # xs) (y # ys) = (if x \<noteq> y then [] else x # mismatch_cut xs ys)"
| "mismatch_cut xs ys = xs"

fun margin_step :: "pystr \<Rightarrow> pystr option \<Rightarrow> pystr option" where
  "margin_step indent None = Some indent"
| "margin_step indent (Some margin) =
     (if prefix margin indent then Some margin
      else if prefix indent margin then Some indent
      else Some (mismatch_cut margin indent))"

definition remove_margin :: "pystr \<Rightarrow> pystr \<Rightarrow> pystr" where
  "remove_margin margin l = (if prefix margin l then drop (length margin) l else l)"

definition dedent :: "pystr \<Rightarrow> pystr" where
  "dedent text =
     (let ls = map blank_ws_only (split_nl text);
          margin = fold margin_step (indents_of ls) None
      in case margin of
           None \<Rightarrow> join_nl ls
         | Some m \<Rightarrow> if m \<noteq> [] then join_nl (map (remove_margin m) ls) else join_nl ls)"

text \<open>
  \<^verbatim>\<open>textwrap.indent\<close>:
  \<^verbatim>\<open>
  def indent(text, prefix, predicate=None):
      ...
      def prefixed_lines():
          for line in text.splitlines(True):
              yield (prefix + line if predicate(line) else line)
      return ''.join(prefixed_lines())
  \<close>
  The repository always passes a predicate, so the default one is not modelled.
\<close>

definition indent :: "pystr \<Rightarrow> pystr \<Rightarrow> (pystr \<Rightarrow> bool) \<Rightarrow> pystr" where
  "indent text pre predicate =
     concat (map (\<lambda>line. if predicate line then pre @ line else line) (splitlines True text))"

section \<open>str.format\<close>

text \<open>
  \<^verbatim>\<open>s.format(*args)\<close> reads the template from left to right: \<^verbatim>\<open>{{\<close> and \<^verbatim>\<open>}}\<close> give one
  literal brace, \<^verbatim>\<open>{}\<close> takes the next positional argument (IndexError when there is
  none left), a \<^verbatim>\<open>}\<close> on its own or a \<^verbatim>\<open>{\<close> at the very end is a ValueError. The first
  failure from the left is the one raised. A replacement field with anything between
  its braces (an index, a name, a conversion, a format specification) is outside the
  fragment modelled here: the model answers \<open>Unmodelled\<close> there, and no statement
  below rests on that answer.
\<close>

datatype py_error = ValueError | IndexError | Unmodelled

fun py_format :: "pystr \<Rightarrow> pystr list \<Rightarrow> py_error + pystr" where
  "py_format [] args = Inr []"
| "py_format (c # cs) args =
     (if c = 123 then
        (case cs of
           [] \<Rightarrow> Inl ValueError
         | d # ds \<Rightarrow>
             if d = 123 then map_sum id ((#) 123) (py_format ds args)
             else if d = 125 then
               (case args of
                  [] \<Rightarrow> Inl IndexError
                | a # as \<Rightarrow> map_sum id ((@) a) (py_format ds as))
             else Inl Unmodelled)
      else if c = 125 then
        (case cs of
           [] \<Rightarrow> Inl ValueError
         | d # ds \<Rightarrow>
             if d = 125 then map_sum id ((#) 125) (py_format ds args)
             else Inl ValueError)
      else map_sum id ((#) c) (py_format cs args))"

section \<open>The repository: multipyline\<close>

text \<open>
  \<^verbatim>\<open>
  def multipyline(s: str) -> str:
      s = textwrap.dedent(s)
      return s.strip()
  \<close>
\<close>

definition multipyline :: "pystr \<Rightarrow> pystr" where
  "multipyline s = strip (dedent s)"

text \<open>
  \<^verbatim>\<open>
  def multipyline_inner(s: str, prefix: str) -> str:
      s = multipyline(s)
      s = textwrap.indent(s, prefix, lambda _: True)
      return s.strip()
  \<close>
\<close>

definition multipyline_inner :: "pystr \<Rightarrow> pystr \<Rightarrow> pystr" where
  "multipyline_inner s pre = strip (indent (multipyline s) pre (\<lambda>_. True))"

text \<open>
  \<^verbatim>\<open>
  def multipylinef(s: str, *args: str) -> str:
      TEMPLATE = "{}"
      formatted_args = [""] * len(args)
      arg_counter = 0
      for line in s.splitlines():
          if TEMPLATE not in line:
              continue
          if line.count(TEMPLATE) > 1:
              raise ValueError(...)
          argument = args[arg_counter]
          formatted_argument = argument
          if len(argument.splitlines()) > 1 and textwrap.dedent(line).startswith(
              TEMPLATE
          ):
              prefix = line[: line.find(TEMPLATE)]
              formatted_argument = multipyline_inner(argument, prefix)
          formatted_args[arg_counter] = formatted_argument
          arg_counter += 1
      print(formatted_args)
      formatted = s.format(*formatted_args)
      return multipyline(formatted)
  \<close>
  \<open>format_argument\<close> is the part of the loop body that computes
  \<^verbatim>\<open>formatted_argument\<close> from the line and the argument, \<open>format_args\<close> is the loop with
  its state (\<^verbatim>\<open>formatted_args\<close>, \<^verbatim>\<open>arg_counter\<close>) passed along. \<^verbatim>\<open>args[arg_counter]\<close>
  raises IndexError when the counter has reached the number of arguments; the
  assignment to \<^verbatim>\<open>formatted_args[arg_counter]\<close> comes after it and is then in range,
  the two lists having the same length. The \<^verbatim>\<open>print\<close> writes to standard output
  and does not change the result; it is left out.
\<close>

definition TEMPLATE :: pystr where
  "TEMPLATE = [123, 125]"

definition format_argument :: "pystr \<Rightarrow> pystr \<Rightarrow> pystr" where
  "format_argument line argument =
     (if 1 < length (splitlines False argument) \<and> prefix TEMPLATE (dedent line)
      then multipyline_inner argument (slice_to line (py_find TEMPLATE line))
      else argument)"

fun format_args :: "pystr list \<Rightarrow> pystr list \<Rightarrow> pystr list \<Rightarrow> nat \<Rightarrow> py_error + pystr list" where
  "format_args [] args formatted_args arg_counter = Inr formatted_args"
| "format_args (line # ls) args formatted_args arg_counter =
     (if \<not> py_in TEMPLATE line then format_args ls args formatted_args arg_counter
      else if 1 < py_count TEMPLATE line then Inl ValueError
      else if length args \<le> arg_counter then Inl IndexError
      else format_args ls args
             (formatted_args[arg_counter := format_argument line (args ! arg_counter)])
             (arg_counter + 1))"

definition multipylinef :: "pystr \<Rightarrow> pystr list \<Rightarrow> py_error + pystr" where
  "multipylinef s args =
     (case format_args (splitlines False s) args (replicate (length args) []) 0 of
        Inl e \<Rightarrow> Inl e
      | Inr formatted_args \<Rightarrow>
          (case py_format s formatted_args of
             Inl e \<Rightarrow> Inl e
           | Inr formatted \<Rightarrow> Inr (multipyline formatted)))"

section \<open>Notions used in the statements\<close>

text \<open>The lines of the template that hold a marker, from top to bottom.\<close>

definition marker_lines :: "pystr \<Rightarrow> pystr list" where
  "marker_lines s = filter (py_in TEMPLATE) (splitlines False s)"

text \<open>
  Every brace of the template belongs to a marker: each \<^verbatim>\<open>{\<close> is followed at once by
  \<^verbatim>\<open>}\<close>, and no \<^verbatim>\<open>}\<close> stands elsewhere.
\<close>

fun only_marker_braces :: "pystr \<Rightarrow> bool" where
  "only_marker_braces [] = True"
| "only_marker_braces [c] = (c \<noteq> 123 \<and> c \<noteq> 125)"
| "only_marker_braces (c # d # cs) =
     (if c = 123 then d = 125 \<and> only_marker_braces cs
      else c \<noteq> 125 \<and> only_marker_braces (d # cs))"

text \<open>
  Every line of \<open>r\<close> after the first that is not blank (empty or whitespace only)
  starts with \<open>pre\<close>.
\<close>

definition later_lines_start_with :: "pystr \<Rightarrow> pystr \<Rightarrow> bool" where
  "later_lines_start_with pre r =
     list_all (\<lambda>l. \<not> list_all isspace l \<longrightarrow> prefix pre l) (tl (splitlines False r))"

section \<open>Evaluation\<close>

text \<open>The definitions to unfold when a concrete input is evaluated.\<close>

lemmas eval_defs = py_def TEMPLATE_def multipylinef_def multipyline_def multipyline_inner_def
  format_argument_def dedent_def indent_def strip_def isspace_def is_linebreak_def
  is_sp_tab_def blank_ws_only_def indents_of_def remove_margin_def py_count_def
  slice_to_def Let_def marker_lines_def splitlines.simps

section \<open>Properties of the model\<close>

subsection \<open>Lines, dedent and strip\<close>


lemma split_nl_not_Nil [simp]: "split_nl s \<noteq> []"
  by (induction s) (auto split: list.splits)

lemma set_split_nl: "l \<in> set (split_nl s) \<Longrightarrow> set l \<subseteq> set s"
proof (induction s arbitrary: l)
  case Nil
  then show ?case by simp
next
  case (Cons c cs)
  show ?case
  proof (cases "c = 10")
    case True
    with Cons show ?thesis by auto
  next
    case False
    obtain k ks where sp: "split_nl cs = k # ks"
      by (cases "split_nl cs") auto
    with False Cons.prems have "l = c # k \<or> l \<in> set ks" by auto
    with Cons.IH [of k] Cons.IH [of l] sp show ?thesis by auto
  qed
qed

lemma split_nl_no_newline: "l \<in> set (split_nl s) \<Longrightarrow> 10 \<notin> set l"
proof (induction s arbitrary: l)
  case Nil
  then show ?case by simp
next
  case (Cons c cs)
  show ?case
  proof (cases "c = 10")
    case True
    with Cons show ?thesis by auto
  next
    case False
    obtain k ks where sp: "split_nl cs = k # ks"
      by (cases "split_nl cs") auto
    with False Cons.prems have "l = c # k \<or> l \<in> set ks" by auto
    with Cons.IH [of k] Cons.IH [of l] sp False show ?thesis by auto
  qed
qed

lemma set_join_nl: "c \<in> set (join_nl ls) \<Longrightarrow> c = 10 \<or> (\<exists>l\<in>set ls. c \<in> set l)"
  by (induction ls rule: join_nl.induct) auto

lemma join_split_nl [simp]: "join_nl (split_nl s) = s"
proof (induction s)
  case Nil
  show ?case by simp
next
  case (Cons c cs)
  obtain k ks where sp: "split_nl cs = k # ks"
    by (cases "split_nl cs") auto
  with Cons show ?case by (cases ks) auto
qed

lemma set_blank_ws_only: "set (blank_ws_only l) \<subseteq> set l"
  by (simp add: blank_ws_only_def)

lemma set_remove_margin: "set (remove_margin m l) \<subseteq> set l"
  by (auto simp: remove_margin_def dest: in_set_dropD)

lemma set_dedent: "c \<in> set (dedent s) \<Longrightarrow> c = 10 \<or> c \<in> set s"
proof -
  assume c: "c \<in> set (dedent s)"
  let ?ls = "map blank_ws_only (split_nl s)"
  have sub: "\<And>l. l \<in> set ?ls \<Longrightarrow> set l \<subseteq> set s"
    using set_split_nl set_blank_ws_only by fastforce
  from c have "c \<in> set (join_nl ?ls) \<or> (\<exists>m. c \<in> set (join_nl (map (remove_margin m) ?ls)))"
    by (auto simp: dedent_def Let_def split: option.splits if_splits)
  then show ?thesis
  proof
    assume "c \<in> set (join_nl ?ls)"
    from set_join_nl [OF this] sub show ?thesis by blast
  next
    assume "\<exists>m. c \<in> set (join_nl (map (remove_margin m) ?ls))"
    then obtain m where "c \<in> set (join_nl (map (remove_margin m) ?ls))" ..
    from set_join_nl [OF this] obtain l where "c = 10 \<or> (l \<in> set ?ls \<and> c \<in> set (remove_margin m l))"
      by auto
    with sub set_remove_margin show ?thesis by blast
  qed
qed

lemma isspace_newline [simp]: "isspace 10"
  by (simp add: isspace_def)

lemma strip_all_space: "list_all isspace s \<Longrightarrow> strip s = []"
  by (auto simp: strip_def list_all_iff dest: set_dropWhileD)

lemma multipyline_blank: "list_all isspace s \<Longrightarrow> multipyline s = []"
  unfolding multipyline_def
  by (rule strip_all_space) (auto simp: list_all_iff dest: set_dedent)

subsection \<open>Searching and counting the marker\<close>

lemma count_from_pos_in: "0 < count_from sub skip s \<Longrightarrow> py_in sub s"
  by (induction sub skip s rule: count_from.induct) (auto split: if_splits)

lemma in_count_from_pos: "sub \<noteq> [] \<Longrightarrow> py_in sub s \<Longrightarrow> 0 < count_from sub 0 s"
  by (induction s) auto

lemma TEMPLATE_not_Nil [simp]: "TEMPLATE \<noteq> []"
  by (simp add: TEMPLATE_def)

lemma py_in_TEMPLATE_iff: "py_in TEMPLATE l \<longleftrightarrow> 0 < py_count TEMPLATE l"
  using count_from_pos_in [of TEMPLATE 0 l] in_count_from_pos [of TEMPLATE l]
  by (auto simp: py_count_def)

lemma py_count_TEMPLATE_simps [simp]:
  "py_count TEMPLATE [] = 0"
  "py_count TEMPLATE [c] = 0"
  "py_count TEMPLATE (c # d # cs) =
     (if c = 123 \<and> d = 125 then Suc (py_count TEMPLATE cs) else py_count TEMPLATE (d # cs))"
  by (simp_all add: py_count_def TEMPLATE_def)

lemma py_count_TEMPLATE_Cons:
  "c \<noteq> 123 \<Longrightarrow> py_count TEMPLATE (c # cs) = py_count TEMPLATE cs"
  by (cases cs) simp_all

subsection \<open>The loop of multipylinef\<close>

lemma format_args_ok:
  assumes "\<forall>l\<in>set ls. py_count TEMPLATE l \<le> 1"
    and "n + length (filter (py_in TEMPLATE) ls) \<le> length args"
    and "length fa = length args"
  shows "format_args ls args fa n =
           Inr (take n fa @ map2 format_argument (filter (py_in TEMPLATE) ls) (drop n args)
                @ drop (n + length (filter (py_in TEMPLATE) ls)) fa)"
  using assms
proof (induction ls arbitrary: fa n)
  case Nil
  then show ?case by simp
next
  case (Cons line ls)
  show ?case
  proof (cases "py_in TEMPLATE line")
    case False
    with Cons show ?thesis by simp
  next
    case True
    from Cons.prems True have n: "n < length args" by simp
    let ?x = "format_argument line (args ! n)"
    have step: "format_args (line # ls) args fa n = format_args ls args (fa[n := ?x]) (n + 1)"
      using True Cons.prems n by (simp add: not_less)
    have ih: "format_args ls args (fa[n := ?x]) (n + 1) =
        Inr (take (n + 1) (fa[n := ?x])
             @ map2 format_argument (filter (py_in TEMPLATE) ls) (drop (n + 1) args)
             @ drop (n + 1 + length (filter (py_in TEMPLATE) ls)) (fa[n := ?x]))"
      using Cons.prems True by (intro Cons.IH) simp_all
    have t: "take (n + 1) (fa[n := ?x]) = take n fa @ [?x]"
      using n Cons.prems(3) by (simp add: take_Suc_conv_app_nth)
    have d: "drop n args = args ! n # drop (n + 1) args"
      using n by (simp add: Cons_nth_drop_Suc)
    show ?thesis
      unfolding step ih t using True d by simp
  qed
qed

lemma format_args_IndexError:
  assumes "\<forall>l\<in>set ls. py_count TEMPLATE l \<le> 1"
    and "length args < n + length (filter (py_in TEMPLATE) ls)"
    and "n \<le> length args"
  shows "format_args ls args fa n = Inl IndexError"
  using assms
proof (induction ls arbitrary: fa n)
  case Nil
  then show ?case by simp
next
  case (Cons line ls)
  show ?case
  proof (cases "py_in TEMPLATE line")
    case False
    with Cons show ?thesis by simp
  next
    case True
    show ?thesis
    proof (cases "length args \<le> n")
      case True
      with \<open>py_in TEMPLATE line\<close> Cons.prems show ?thesis by (simp add: not_less)
    next
      case False
      have "format_args ls args (fa[n := format_argument line (args ! n)]) (n + 1) = Inl IndexError"
        using Cons.prems True False by (intro Cons.IH) simp_all
      with False True Cons.prems show ?thesis by (simp add: not_less)
    qed
  qed
qed

lemma format_args_multiple:
  assumes "\<exists>l\<in>set ls. 1 < py_count TEMPLATE l"
    and "n \<le> length args"
  shows "format_args ls args fa n =
           (if n + length (filter (py_in TEMPLATE) (takeWhile (\<lambda>l. py_count TEMPLATE l \<le> 1) ls))
                 \<le> length args
            then Inl ValueError else Inl IndexError)"
  using assms
proof (induction ls arbitrary: fa n)
  case Nil
  then show ?case by simp
next
  case (Cons line ls)
  show ?case
  proof (cases "1 < py_count TEMPLATE line")
    case True
    then have "py_in TEMPLATE line" by (simp add: py_in_TEMPLATE_iff)
    with True Cons.prems show ?thesis by simp
  next
    case False
    with Cons.prems have ex: "\<exists>l\<in>set ls. 1 < py_count TEMPLATE l" by auto
    show ?thesis
    proof (cases "py_in TEMPLATE line")
      case False
      with \<open>\<not> 1 < py_count TEMPLATE line\<close> Cons.IH [OF ex Cons.prems(2)] show ?thesis by simp
    next
      case True
      show ?thesis
      proof (cases "length args \<le> n")
        case True
        with \<open>py_in TEMPLATE line\<close> \<open>\<not> 1 < py_count TEMPLATE line\<close> show ?thesis by simp
      next
        case False
        with \<open>py_in TEMPLATE line\<close> \<open>\<not> 1 < py_count TEMPLATE line\<close>
          Cons.IH [OF ex, of "n + 1" "fa[n := format_argument line (args ! n)]"]
        show ?thesis by simp
      qed
    qed
  qed
qed

subsection \<open>The lines of splitlines\<close>

lemma splitlines_nb:
  "\<not> is_linebreak c \<Longrightarrow>
     splitlines k (c # cs) = (case splitlines k cs of [] \<Rightarrow> [[c]] | l # ls \<Rightarrow> (c # l) # ls)"
  by (subst splitlines.simps(2)) (simp del: splitlines.simps)

lemma splitlines_lb_end:
  "is_linebreak c \<Longrightarrow> splitlines k [c] = [if k then [c] else []]"
  by simp

lemma splitlines_crlf:
  "splitlines k (13 # 10 # ds) = (if k then [13, 10] else []) # splitlines k ds"
  by (subst splitlines.simps(2)) (simp add: is_linebreak_def del: splitlines.simps)

lemma splitlines_lb:
  "is_linebreak c \<Longrightarrow> \<not> (c = 13 \<and> d = 10) \<Longrightarrow>
     splitlines k (c # d # ds) = (if k then [c] else []) # splitlines k (d # ds)"
  by (subst splitlines.simps(2)) (auto simp del: splitlines.simps)

declare splitlines.simps(2) [simp del]

lemmas splitlines_unfold = splitlines_nb splitlines_lb_end splitlines_crlf splitlines_lb

lemma splitlines_Nil_iff [simp]: "splitlines k s = [] \<longleftrightarrow> s = []"
proof (cases s)
  case Nil
  then show ?thesis by simp
next
  case s: (Cons c cs)
  show ?thesis
  proof (cases "is_linebreak c")
    case True
    then show ?thesis
      using s by (cases cs; cases "c = 13 \<and> hd cs = 10") (auto simp: splitlines_unfold)
  next
    case False
    then show ?thesis
      using s by (cases "splitlines k cs") (simp_all add: splitlines_nb)
  qed
qed

lemma splitlines_first_line:
  "splitlines False (d # ds) = l # ls \<Longrightarrow> l = [] \<or> (\<exists>l'. l = d # l')"
proof (cases "is_linebreak d")
  case True
  assume "splitlines False (d # ds) = l # ls"
  with True show ?thesis
    by (cases ds; cases "d = 13 \<and> hd ds = 10") (auto simp: splitlines_unfold)
next
  case False
  assume "splitlines False (d # ds) = l # ls"
  with False show ?thesis
    by (cases "splitlines False ds") (auto simp: splitlines_nb)
qed

lemma is_linebreak_not_brace: "is_linebreak c \<Longrightarrow> c \<noteq> 123 \<and> c \<noteq> 125"
  by (auto simp: is_linebreak_def)

lemma count_splitlines:
  "sum_list (map (py_count TEMPLATE) (splitlines False s)) = py_count TEMPLATE s"
proof (induction s rule: length_induct)
  case (1 s)
  then have IH: "\<And>t. length t < length s \<Longrightarrow>
      sum_list (map (py_count TEMPLATE) (splitlines False t)) = py_count TEMPLATE t"
    by blast
  show ?case
  proof (cases s)
    case Nil
    then show ?thesis by simp
  next
    case s: (Cons c cs)
    show ?thesis
    proof (cases "is_linebreak c")
      case True
      then have c: "c \<noteq> 123" by (simp add: is_linebreak_not_brace)
      show ?thesis
      proof (cases cs)
        case Nil
        with s True show ?thesis by (simp add: splitlines_unfold)
      next
        case cs: (Cons d ds)
        show ?thesis
        proof (cases "c = 13 \<and> d = 10")
          case True
          with s cs \<open>is_linebreak c\<close> IH [of ds] show ?thesis by (simp add: splitlines_crlf py_count_TEMPLATE_Cons)
        next
          case False
          with s cs \<open>is_linebreak c\<close> c IH [of cs] show ?thesis by (simp add: splitlines_lb py_count_TEMPLATE_Cons)
        qed
      qed
    next
      case nb: False
      show ?thesis
      proof (cases cs)
        case Nil
        with s nb show ?thesis by (simp add: splitlines_nb)
      next
        case cs: (Cons d ds)
        obtain l ls where sp: "splitlines False cs = l # ls"
          using cs by (cases "splitlines False cs") auto
        have ih: "py_count TEMPLATE l + sum_list (map (py_count TEMPLATE) ls) = py_count TEMPLATE cs"
          using IH [of cs] s sp by simp
        have whole: "splitlines False s = (c # l) # ls"
          using s nb sp by (simp add: splitlines_nb)
        show ?thesis
        proof (cases "c = 123 \<and> d = 125")
          case True
          then have dnb: "\<not> is_linebreak d" by (auto simp: is_linebreak_def)
          show ?thesis
          proof (cases ds)
            case Nil
            with True s cs nb dnb show ?thesis by (simp add: splitlines_nb)
          next
            case (Cons e es)
            obtain k ks where sp': "splitlines False ds = k # ks"
              using Cons by (cases "splitlines False ds") auto
            have "py_count TEMPLATE k + sum_list (map (py_count TEMPLATE) ks) = py_count TEMPLATE ds"
              using IH [of ds] s cs sp' by simp
            moreover have "splitlines False s = (c # d # k) # ks"
              using s cs nb dnb sp' by (simp add: splitlines_nb)
            ultimately show ?thesis using True s cs by simp
          qed
        next
          case False
          from splitlines_first_line [of d ds l ls] sp cs
          have "l = [] \<or> (\<exists>l'. l = d # l')" by simp
          with False have "py_count TEMPLATE (c # l) = py_count TEMPLATE l" by auto
          moreover from False have "py_count TEMPLATE s = py_count TEMPLATE cs"
            using s cs by auto
          ultimately show ?thesis using whole ih by simp
        qed
      qed
    qed
  qed
qed

lemma count_le_1_marker_lines:
  "\<forall>l\<in>set ls. py_count TEMPLATE l \<le> 1 \<Longrightarrow>
     length (filter (py_in TEMPLATE) ls) = sum_list (map (py_count TEMPLATE) ls)"
proof (induction ls)
  case Nil
  then show ?case by simp
next
  case (Cons l ls)
  then have "py_count TEMPLATE l = 0 \<or> py_count TEMPLATE l = 1" by auto
  with Cons show ?case by (auto simp: py_in_TEMPLATE_iff)
qed

lemma marker_lines_count:
  "\<forall>l\<in>set (splitlines False s). py_count TEMPLATE l \<le> 1 \<Longrightarrow>
     length (marker_lines s) = py_count TEMPLATE s"
  by (simp add: marker_lines_def count_le_1_marker_lines count_splitlines)

lemma splitlines_no_linebreak:
  "l \<in> set (splitlines False s) \<Longrightarrow> c \<in> set l \<Longrightarrow> \<not> is_linebreak c"
proof (induction s arbitrary: l rule: length_induct)
  case (1 s)
  then have IH: "\<And>t l. length t < length s \<Longrightarrow> l \<in> set (splitlines False t) \<Longrightarrow>
      c \<in> set l \<Longrightarrow> \<not> is_linebreak c"
    by blast
  show ?case
  proof (cases s)
    case Nil
    with 1 show ?thesis by simp
  next
    case s: (Cons a as)
    show ?thesis
    proof (cases "is_linebreak a")
      case True
      show ?thesis
      proof (cases as)
        case Nil
        with s True "1.prems" show ?thesis by (simp add: splitlines_lb_end)
      next
        case (Cons d ds)
        with s True "1.prems" IH [of ds l] IH [of as l] show ?thesis
          by (cases "a = 13 \<and> d = 10") (auto simp: splitlines_crlf splitlines_lb)
      qed
    next
      case False
      show ?thesis
      proof (cases "splitlines False as")
        case Nil
        with s False "1.prems" show ?thesis by (auto simp: splitlines_nb)
      next
        case (Cons k ks)
        with s False "1.prems" have "l = a # k \<or> l \<in> set ks" by (auto simp: splitlines_nb)
        with IH [of as k] IH [of as l] Cons s False "1.prems" show ?thesis by auto
      qed
    qed
  qed
qed

subsection \<open>Dedenting one line\<close>

lemma split_nl_single: "10 \<notin> set l \<Longrightarrow> split_nl l = [l]"
  by (induction l) auto

lemma dedent_single_line:
  assumes "10 \<notin> set l"
  shows "dedent l = (if list_all is_sp_tab l then [] else dropWhile is_sp_tab l)"
proof (cases "list_all is_sp_tab l")
  case True
  then have "blank_ws_only l = []" by (simp add: blank_ws_only_def)
  with True assms show ?thesis
    by (simp add: dedent_def split_nl_single indents_of_def)
next
  case False
  then have b: "blank_ws_only l = l" by (simp add: blank_ws_only_def)
  from False have d: "dropWhile is_sp_tab l \<noteq> []" by (simp add: list_all_iff)
  have p: "prefix (takeWhile is_sp_tab l) l"
    by (metis prefixI takeWhile_dropWhile_id)
  have "drop (length (takeWhile is_sp_tab l)) l = dropWhile is_sp_tab l"
    by (metis append_eq_conv_conj takeWhile_dropWhile_id)
  moreover have "takeWhile is_sp_tab l = [] \<Longrightarrow> dropWhile is_sp_tab l = l"
    by (metis append_Nil takeWhile_dropWhile_id)
  ultimately show ?thesis
    using False assms b d p
    by (simp add: dedent_def Let_def split_nl_single indents_of_def remove_margin_def)
qed

lemma py_find_after_indent:
  "list_all is_sp_tab pre \<Longrightarrow> py_find TEMPLATE (pre @ TEMPLATE @ post) = int (length pre)"
proof (induction pre)
  case Nil
  then show ?case by (simp add: TEMPLATE_def)
next
  case (Cons c pre)
  then have "c \<noteq> 123" by (auto simp: is_sp_tab_def)
  with Cons show ?case by (simp add: TEMPLATE_def)
qed

lemma marker_first_on_line:
  assumes "10 \<notin> set l" and "prefix TEMPLATE (dedent l)"
  shows "\<exists>pre post. l = pre @ TEMPLATE @ post \<and> list_all is_sp_tab pre
           \<and> slice_to l (py_find TEMPLATE l) = pre"
proof -
  from assms have nb: "\<not> list_all is_sp_tab l"
    by (auto simp: dedent_single_line TEMPLATE_def)
  with assms have "prefix TEMPLATE (dropWhile is_sp_tab l)"
    by (simp add: dedent_single_line)
  then obtain post where post: "dropWhile is_sp_tab l = TEMPLATE @ post"
    by (auto simp: prefix_def)
  let ?pre = "takeWhile is_sp_tab l"
  have l: "l = ?pre @ TEMPLATE @ post"
    using post by (metis takeWhile_dropWhile_id)
  have ws: "list_all is_sp_tab ?pre"
    by (simp add: list_all_iff) (meson set_takeWhileD)
  have "py_find TEMPLATE l = int (length ?pre)"
    using py_find_after_indent [OF ws, of post] l by simp
  moreover have "take (length ?pre) l = ?pre"
    by (metis append_eq_conv_conj takeWhile_dropWhile_id)
  ultimately have "slice_to l (py_find TEMPLATE l) = ?pre"
    by (simp add: slice_to_def)
  with l ws show ?thesis by blast
qed

lemma splitlines_no_newline: "l \<in> set (splitlines False s) \<Longrightarrow> 10 \<notin> set l"
  using splitlines_no_linebreak [of l s 10] by (auto simp: is_linebreak_def)

subsection \<open>str.format on templates without stray braces\<close>

lemma py_format_plain: "123 \<notin> set s \<Longrightarrow> 125 \<notin> set s \<Longrightarrow> py_format s args = Inr s"
  by (induction s) auto

lemma py_format_plain_append:
  "123 \<notin> set x \<Longrightarrow> 125 \<notin> set x \<Longrightarrow>
     py_format (x @ z) args = map_sum id ((@) x) (py_format z args)"
proof (induction x)
  case Nil
  show ?case by (cases "py_format z args") simp_all
next
  case (Cons c x)
  then show ?case by (cases "py_format z args") auto
qed

lemma py_format_marker:
  "py_format (TEMPLATE @ z) (a # as) = map_sum id ((@) a) (py_format z as)"
  by (simp add: TEMPLATE_def)

lemma py_format_extra_args:
  "py_format s xs = Inr r \<Longrightarrow> py_format s (xs @ ys) = Inr r"
proof (induction s xs arbitrary: r rule: py_format.induct)
  case (1 args)
  then show ?case by simp
next
  case (2 c cs args)
  show ?case
  proof (cases cs)
    case Nil
    with 2 show ?thesis by (auto split: if_splits)
  next
    case (Cons d ds)
    show ?thesis
    proof (cases args)
      case Nil
      with 2 Cons show ?thesis
        by (auto split: if_splits sum.splits simp: map_sum_def)
    next
      case (Cons a as)
      with 2 \<open>cs = d # ds\<close> show ?thesis
        by (auto split: if_splits sum.splits simp: map_sum_def)
    qed
  qed
qed

lemma py_format_succeeds:
  "only_marker_braces s \<Longrightarrow> py_count TEMPLATE s \<le> length xs \<Longrightarrow> \<exists>r. py_format s xs = Inr r"
proof (induction s arbitrary: xs rule: only_marker_braces.induct)
  case 1
  then show ?case by simp
next
  case (2 c)
  then show ?case by simp
next
  case (3 c d cs)
  show ?case
  proof (cases "c = 123")
    case True
    with 3 obtain a as where xs: "xs = a # as" by (cases xs) auto
    with 3 True obtain r where "py_format cs as = Inr r" by fastforce
    with 3 True xs show ?thesis by simp
  next
    case False
    with 3 obtain r where "py_format (d # cs) xs = Inr r" by fastforce
    with 3 False show ?thesis by simp
  qed
qed

lemma py_count_no_brace: "123 \<notin> set s \<Longrightarrow> py_count TEMPLATE s = 0"
proof (induction s)
  case Nil
  show ?case by simp
next
  case (Cons c s)
  then show ?case by (simp add: py_count_TEMPLATE_Cons)
qed

lemma py_count_plain_append:
  "123 \<notin> set x \<Longrightarrow> py_count TEMPLATE (x @ z) = py_count TEMPLATE z"
  by (induction x) (simp_all add: py_count_TEMPLATE_Cons)

lemma py_count_marker: "py_count TEMPLATE (TEMPLATE @ z) = Suc (py_count TEMPLATE z)"
  by (simp add: TEMPLATE_def py_count_def)

lemma zip_take_right: "zip xs (take (length xs) ys) = zip xs ys"
proof (induction xs arbitrary: ys)
  case Nil
  show ?case by simp
next
  case (Cons x xs)
  then show ?case by (cases ys) simp_all
qed

lemma format_args_no_marker:
  "\<forall>l\<in>set ls. \<not> py_in TEMPLATE l \<Longrightarrow> format_args ls args fa n = Inr fa"
  by (induction ls) simp_all

lemma no_marker_lines:
  assumes "py_count TEMPLATE s = 0"
  shows "\<forall>l\<in>set (splitlines False s). \<not> py_in TEMPLATE l"
proof -
  have "sum_list (map (py_count TEMPLATE) (splitlines False s)) = 0"
    using assms by (simp add: count_splitlines)
  then show ?thesis by (auto simp: py_in_TEMPLATE_iff)
qed

subsection \<open>Lines of a text cut at a line boundary\<close>

lemma splitlines_append_break:
  assumes "is_linebreak b" and "\<not> (b = 13 \<and> (\<exists>y'. y = 10 # y'))"
  shows "splitlines k (x @ b # y) = splitlines k (x @ [b]) @ splitlines k y"
proof (induction x rule: length_induct)
  case (1 x)
  then have IH: "\<And>t. length t < length x \<Longrightarrow>
      splitlines k (t @ b # y) = splitlines k (t @ [b]) @ splitlines k y"
    by blast
  have base: "splitlines k (b # y) = splitlines k [b] @ splitlines k y"
  proof (cases y)
    case Nil
    then show ?thesis by simp
  next
    case (Cons d ds)
    with assms show ?thesis by (simp add: splitlines_lb splitlines_lb_end)
  qed
  show ?case
  proof (cases x)
    case Nil
    with base show ?thesis by simp
  next
    case x: (Cons c x')
    show ?thesis
    proof (cases "is_linebreak c")
      case False
      obtain l ls where sp: "splitlines k (x' @ [b]) = l # ls"
        by (cases "splitlines k (x' @ [b])") auto
      with False x IH [of x'] show ?thesis by (simp add: splitlines_nb)
    next
      case True
      show ?thesis
      proof (cases x')
        case Nil
        show ?thesis
        proof (cases "c = 13 \<and> b = 10")
          case True
          with x Nil show ?thesis by (simp add: splitlines_crlf)
        next
          case False
          with x Nil \<open>is_linebreak c\<close> base show ?thesis by (simp add: splitlines_lb)
        qed
      next
        case (Cons d x'')
        show ?thesis
        proof (cases "c = 13 \<and> d = 10")
          case True
          with x Cons IH [of x''] show ?thesis by (simp add: splitlines_crlf)
        next
          case False
          with x Cons \<open>is_linebreak c\<close> IH [of x'] show ?thesis by (simp add: splitlines_lb)
        qed
      qed
    qed
  qed
qed

lemma is_linebreak_newline [simp]: "is_linebreak 10"
  by (simp add: is_linebreak_def)

lemma cut_at_last_break:
  assumes "\<exists>c\<in>set mid. is_linebreak c"
  shows "\<exists>m1 b m2. mid = m1 @ b # m2 \<and> is_linebreak b \<and> \<not> (b = 13 \<and> (\<exists>y'. m2 = 10 # y'))"
proof -
  from split_list_last_prop [OF assms] obtain m1 b m2 where
    m: "mid = m1 @ b # m2" "is_linebreak b" "\<forall>c\<in>set m2. \<not> is_linebreak c"
    by auto
  have "\<not> (\<exists>y'. m2 = 10 # y')"
  proof
    assume "\<exists>y'. m2 = 10 # y'"
    then have "10 \<in> set m2" by auto
    with m(3) show False by auto
  qed
  with m(1,2) show ?thesis by blast
qed

lemma sum_list_one_le:
  fixes ns :: "nat list"
  shows "sum_list ns \<le> 1 \<Longrightarrow> \<forall>n\<in>set ns. n \<le> 1"
  by (induction ns) auto

lemma one_marker_part:
  assumes "py_count TEMPLATE t = 1"
  shows "(\<forall>l\<in>set (splitlines False t). py_count TEMPLATE l \<le> 1)
         \<and> length (filter (py_in TEMPLATE) (splitlines False t)) = 1"
proof -
  have s: "sum_list (map (py_count TEMPLATE) (splitlines False t)) = 1"
    using assms by (simp add: count_splitlines)
  then have le: "\<forall>l\<in>set (splitlines False t). py_count TEMPLATE l \<le> 1"
    using sum_list_one_le [of "map (py_count TEMPLATE) (splitlines False t)"] by simp
  with s count_le_1_marker_lines [OF le] show ?thesis by simp
qed

lemma two_marker_lines:
  assumes "123 \<notin> set pre" and "123 \<notin> set mid" and "123 \<notin> set post"
    and "\<exists>c\<in>set mid. is_linebreak c"
  shows "(\<forall>l\<in>set (splitlines False (pre @ TEMPLATE @ mid @ TEMPLATE @ post)).
            py_count TEMPLATE l \<le> 1)
         \<and> length (marker_lines (pre @ TEMPLATE @ mid @ TEMPLATE @ post)) = 2"
proof -
  from cut_at_last_break [OF assms(4)] obtain m1 b m2 where
    m: "mid = m1 @ b # m2" "is_linebreak b" "\<not> (b = 13 \<and> (\<exists>y'. m2 = 10 # y'))"
    by blast
  let ?x = "pre @ TEMPLATE @ m1"
  let ?y = "m2 @ TEMPLATE @ post"
  have nb: "\<not> (b = 13 \<and> (\<exists>y'. ?y = 10 # y'))"
    using m(3) by (cases m2) (auto simp: TEMPLATE_def)
  have whole: "pre @ TEMPLATE @ mid @ TEMPLATE @ post = ?x @ b # ?y"
    using m(1) by simp
  have lines: "splitlines False (pre @ TEMPLATE @ mid @ TEMPLATE @ post)
                 = splitlines False (?x @ [b]) @ splitlines False ?y"
    unfolding whole by (rule splitlines_append_break [OF m(2) nb])
  from assms(2) m(1) have m1: "123 \<notin> set m1" and m2: "123 \<notin> set m2" and b: "b \<noteq> 123"
    by auto
  have "py_count TEMPLATE ((pre @ TEMPLATE @ m1) @ [b]) = 1"
    using assms(1) m1 b
    by (simp add: py_count_plain_append py_count_marker py_count_no_brace)
  from one_marker_part [OF this]
  have p1: "\<forall>l\<in>set (splitlines False (?x @ [b])). py_count TEMPLATE l \<le> 1"
    and n1: "length (filter (py_in TEMPLATE) (splitlines False (?x @ [b]))) = 1"
    by blast+
  have "py_count TEMPLATE ?y = 1"
    using assms(3) m2
    by (simp add: py_count_plain_append py_count_marker py_count_no_brace)
  from one_marker_part [OF this]
  have p2: "\<forall>l\<in>set (splitlines False ?y). py_count TEMPLATE l \<le> 1"
    and n2: "length (filter (py_in TEMPLATE) (splitlines False ?y)) = 1"
    by blast+
  from p1 p2 n1 n2 show ?thesis
    unfolding marker_lines_def lines by auto
qed

lemma py_format_two_markers:
  assumes "123 \<notin> set pre" "125 \<notin> set pre" "123 \<notin> set mid" "125 \<notin> set mid"
    "123 \<notin> set post" "125 \<notin> set post"
  shows "py_format (pre @ TEMPLATE @ mid @ TEMPLATE @ post) [x, y]
           = Inr (pre @ x @ mid @ y @ post)"
  using assms
  by (simp add: py_format_plain_append py_format_marker py_format_plain)

subsection \<open>split on newline and append\<close>

lemma split_nl_append:
  "split_nl (x @ y) =
     butlast (split_nl x) @ (last (split_nl x) @ hd (split_nl y)) # tl (split_nl y)"
proof (induction x)
  case Nil
  show ?case by simp
next
  case (Cons c x)
  obtain l ls where sp: "split_nl x = l # ls"
    by (cases "split_nl x") auto
  show ?case
  proof (cases "c = 10")
    case True
    with Cons sp show ?thesis by simp
  next
    case False
    show ?thesis
    proof (cases ls)
      case Nil
      with False Cons sp show ?thesis by simp
    next
      case (Cons k ks)
      with False Cons.IH sp show ?thesis by simp
    qed
  qed
qed

lemma split_nl_later_lines: "set (tl (split_nl y)) \<subseteq> set (split_nl (x @ y))"
  by (subst split_nl_append) auto

lemma split_nl_earlier_lines: "set (butlast (split_nl x)) \<subseteq> set (split_nl (x @ y))"
  by (subst split_nl_append) auto

lemma split_nl_hd: "t \<noteq> [] \<Longrightarrow> hd t \<noteq> 10 \<Longrightarrow> hd t \<in> set (hd (split_nl t))"
  by (cases t; cases "split_nl (tl t)") auto

lemma split_nl_last: "t \<noteq> [] \<Longrightarrow> last t \<noteq> 10 \<Longrightarrow> last t \<in> set (last (split_nl t))"
proof -
  assume t: "t \<noteq> []" and l: "last t \<noteq> 10"
  then have "t = butlast t @ [last t]" by simp
  then have "split_nl t = split_nl (butlast t @ [last t])" by simp
  also have "\<dots> = butlast (split_nl (butlast t)) @ [last (split_nl (butlast t)) @ [last t]]"
    using l by (subst split_nl_append) simp
  finally show ?thesis by simp
qed

lemma split_nl_cases:
  assumes "l \<in> set (split_nl t)"
  shows "l = hd (split_nl t) \<or> l = last (split_nl t) \<or> l \<in> set (tl (butlast (split_nl t)))"
proof -
  obtain k ks where sp: "split_nl t = k # ks"
    by (cases "split_nl t") auto
  show ?thesis
  proof (cases ks rule: rev_cases)
    case Nil
    with assms sp show ?thesis by simp
  next
    case (snoc ys y)
    with sp have "split_nl t = (k # ys) @ [y]" by simp
    then have "hd (split_nl t) = k" "last (split_nl t) = y" "tl (butlast (split_nl t)) = ys"
      by (simp_all add: butlast_append)
    moreover from assms sp snoc have "l = k \<or> l = y \<or> l \<in> set ys" by auto
    ultimately show ?thesis by simp
  qed
qed

lemma split_join_nl:
  "ls \<noteq> [] \<Longrightarrow> \<forall>l\<in>set ls. 10 \<notin> set l \<Longrightarrow> split_nl (join_nl ls) = ls"
proof (induction ls rule: join_nl.induct)
  case 1
  then show ?case by simp
next
  case (2 l)
  then show ?case by (simp add: split_nl_single)
next
  case (3 l k ks)
  then have "split_nl (join_nl (k # ks)) = k # ks" by simp
  moreover have "split_nl (l @ 10 # join_nl (k # ks)) = l # split_nl (join_nl (k # ks))"
    using 3(3) by (subst split_nl_append) (simp add: split_nl_single)
  ultimately show ?case by simp
qed

subsection \<open>The lines of a dedented text\<close>

lemma blank_ws_only_idem [simp]: "blank_ws_only (blank_ws_only l) = blank_ws_only l"
  by (simp add: blank_ws_only_def)

lemma set_mismatch_cut: "set (mismatch_cut m i) \<subseteq> set m"
  by (induction m i rule: mismatch_cut.induct) auto

lemma margin_sp_tab:
  "fold margin_step inds acc = Some m \<Longrightarrow> \<forall>i\<in>set inds. list_all is_sp_tab i \<Longrightarrow>
     (\<forall>a. acc = Some a \<longrightarrow> list_all is_sp_tab a) \<Longrightarrow> list_all is_sp_tab m"
proof (induction inds arbitrary: acc)
  case Nil
  then show ?case by simp
next
  case (Cons i inds)
  have "\<forall>a. margin_step i acc = Some a \<longrightarrow> list_all is_sp_tab a"
  proof (cases acc)
    case None
    with Cons.prems show ?thesis by simp
  next
    case (Some a)
    with Cons.prems have "list_all is_sp_tab a" by simp
    then have "list_all is_sp_tab (mismatch_cut a i)"
      using set_mismatch_cut [of a i] by (auto simp: list_all_iff)
    with Some Cons.prems \<open>list_all is_sp_tab a\<close> show ?thesis by simp
  qed
  with Cons show ?case by simp
qed

lemma indents_sp_tab: "\<forall>i\<in>set (indents_of ls). list_all is_sp_tab i"
  by (auto simp: indents_of_def list_all_iff dest: set_takeWhileD)

lemma remove_margin_keeps_good:
  assumes "list_all is_sp_tab m" and "blank_ws_only l = l"
  shows "blank_ws_only (remove_margin m l) = remove_margin m l"
proof (cases "prefix m l")
  case False
  with assms show ?thesis by (simp add: remove_margin_def)
next
  case True
  then obtain r where l: "l = m @ r" by (auto simp: prefix_def)
  then have rm: "remove_margin m l = r" by (simp add: remove_margin_def)
  show ?thesis
  proof (cases "r = []")
    case True
    with rm show ?thesis by (simp add: blank_ws_only_def)
  next
    case False
    with assms(2) l have "\<not> list_all is_sp_tab l"
      by (auto simp: blank_ws_only_def split: if_splits)
    with assms(1) l have "\<not> list_all is_sp_tab r" by simp
    with rm show ?thesis by (simp add: blank_ws_only_def)
  qed
qed

lemma no_newline_blank_ws_only: "10 \<notin> set l \<Longrightarrow> 10 \<notin> set (blank_ws_only l)"
  by (simp add: blank_ws_only_def)

lemma no_newline_remove_margin: "10 \<notin> set l \<Longrightarrow> 10 \<notin> set (remove_margin m l)"
  using set_remove_margin [of m l] by auto

lemma blanked_lines_no_newline:
  assumes "k \<in> set (map blank_ws_only (split_nl s))"
  shows "10 \<notin> set k"
proof -
  from assms obtain k0 where "k0 \<in> set (split_nl s)" and "k = blank_ws_only k0"
    by auto
  then show ?thesis
    using split_nl_no_newline [of k0 s] no_newline_blank_ws_only [of k0] by simp
qed

lemma blanked_lines_good:
  assumes "k \<in> set (map blank_ws_only (split_nl s))"
  shows "blank_ws_only k = k"
proof -
  from assms obtain k0 where "k = blank_ws_only k0" by auto
  then show ?thesis by simp
qed

lemma dedent_cases:
  "dedent s = join_nl (map blank_ws_only (split_nl s)) \<or>
   (\<exists>m. list_all is_sp_tab m
        \<and> dedent s = join_nl (map (remove_margin m) (map blank_ws_only (split_nl s))))"
proof (cases "fold margin_step (indents_of (map blank_ws_only (split_nl s))) None")
  case None
  then show ?thesis by (simp add: dedent_def)
next
  case (Some m)
  have "list_all is_sp_tab m"
    using margin_sp_tab [OF Some] indents_sp_tab by blast
  with Some show ?thesis by (cases "m = []") (auto simp: dedent_def)
qed

lemma dedent_lines_good:
  assumes "l \<in> set (split_nl (dedent s))"
  shows "blank_ws_only l = l"
proof -
  let ?ls = "map blank_ws_only (split_nl s)"
  have ne: "?ls \<noteq> []" by simp
  have nl: "\<forall>k\<in>set ?ls. 10 \<notin> set k"
    using blanked_lines_no_newline by blast
  from dedent_cases [of s] show ?thesis
  proof
    assume "dedent s = join_nl ?ls"
    then have "split_nl (dedent s) = ?ls"
      using split_join_nl [OF ne nl] by simp
    with assms have "l \<in> set ?ls" by simp
    then show ?thesis by (rule blanked_lines_good)
  next
    assume "\<exists>m. list_all is_sp_tab m \<and> dedent s = join_nl (map (remove_margin m) ?ls)"
    then obtain m where m: "list_all is_sp_tab m"
      and d: "dedent s = join_nl (map (remove_margin m) ?ls)"
      by blast
    let ?ls' = "map (remove_margin m) ?ls"
    have ne': "?ls' \<noteq> []" by simp
    have nl': "\<forall>k\<in>set ?ls'. 10 \<notin> set k"
    proof
      fix k assume "k \<in> set ?ls'"
      then obtain k0 where k0: "k0 \<in> set ?ls" and k: "k = remove_margin m k0"
        by (metis (no_types, lifting) image_iff list.set_map)
      from k0 nl have "10 \<notin> set k0" by blast
      then show "10 \<notin> set k"
        unfolding k by (rule no_newline_remove_margin)
    qed
    have "split_nl (dedent s) = ?ls'"
      unfolding d by (rule split_join_nl [OF ne' nl'])
    with assms have "l \<in> set ?ls'" by simp
    then obtain k0 where k0: "k0 \<in> set ?ls" and l: "l = remove_margin m k0"
      by (metis (no_types, lifting) image_iff list.set_map)
    from blanked_lines_good [OF k0] have "blank_ws_only k0 = k0" .
    from remove_margin_keeps_good [OF m this] l show ?thesis by simp
  qed
qed

subsection \<open>strip\<close>

lemma is_sp_tab_isspace: "is_sp_tab c \<Longrightarrow> isspace c"
  by (auto simp: is_sp_tab_def isspace_def)

lemma strip_inner:
  "dropWhile isspace d = strip d @ rev (takeWhile isspace (rev (dropWhile isspace d)))"
proof -
  let ?u = "dropWhile isspace d"
  have "rev (takeWhile isspace (rev ?u) @ dropWhile isspace (rev ?u)) = ?u"
    by (simp only: takeWhile_dropWhile_id rev_rev_ident)
  then have "rev (dropWhile isspace (rev ?u)) @ rev (takeWhile isspace (rev ?u)) = ?u"
    by (simp only: rev_append)
  then show ?thesis unfolding strip_def by (rule sym)
qed

lemma strip_decomp: "\<exists>a b. d = a @ strip d @ b"
proof -
  have "d = takeWhile isspace d @ dropWhile isspace d" by simp
  with strip_inner [of d] show ?thesis by metis
qed

lemma strip_hd: "strip d \<noteq> [] \<Longrightarrow> \<not> isspace (hd (strip d))"
proof -
  assume ne: "strip d \<noteq> []"
  let ?u = "dropWhile isspace d"
  from ne strip_inner [of d] have "hd ?u = hd (strip d)" by (metis hd_append2)
  moreover from ne strip_inner [of d] have "?u \<noteq> []" by (metis Nil_is_append_conv)
  ultimately show ?thesis using hd_dropWhile [of isspace d] by metis
qed

lemma strip_last: "strip d \<noteq> [] \<Longrightarrow> \<not> isspace (last (strip d))"
proof -
  assume ne: "strip d \<noteq> []"
  let ?v = "dropWhile isspace (rev (dropWhile isspace d))"
  from ne have v: "?v \<noteq> []" unfolding strip_def by (simp only: rev_is_Nil_conv not_False_eq_True)
  have "last (strip d) = hd ?v" unfolding strip_def by (rule last_rev)
  with hd_dropWhile [OF v] show ?thesis by metis
qed

lemma strip_fixed:
  assumes "t \<noteq> []" and "\<not> isspace (hd t)" and "\<not> isspace (last t)"
  shows "strip t = t"
proof -
  from assms(2) have 1: "dropWhile isspace t = t"
    by (simp only: dropWhile_eq_self_iff) simp
  from assms(3) have "\<not> isspace (hd (rev t))" by (simp add: hd_rev)
  then have 2: "dropWhile isspace (rev t) = rev t"
    by (simp only: dropWhile_eq_self_iff) simp
  show ?thesis unfolding strip_def by (simp only: 1 2 rev_rev_ident)
qed

lemma strip_idem: "strip (strip d) = strip d"
proof (cases "strip d = []")
  case True
  have "strip [] = []" by (simp add: strip_def)
  with True show ?thesis by (simp only:)
next
  case False
  then show ?thesis by (intro strip_fixed strip_hd strip_last)
qed

subsection \<open>A text that dedent leaves as it is\<close>

lemma fold_margin_step_Nil: "fold margin_step inds (Some []) = Some []"
  by (induction inds) simp_all

lemma dedent_fixed:
  assumes "t \<noteq> []" and "\<not> isspace (hd t)" and "\<forall>l\<in>set (split_nl t). blank_ws_only l = l"
  shows "dedent t = t"
proof -
  from assms(1) obtain c t' where t: "t = c # t'" by (cases t) auto
  with assms(2) have c: "c \<noteq> 10" "\<not> is_sp_tab c"
    using is_sp_tab_isspace [of c] by auto
  obtain k ks where sp': "split_nl t' = k # ks"
    by (cases "split_nl t'") auto
  with t c have sp: "split_nl t = (c # k) # ks" by simp
  have same: "map blank_ws_only (split_nl t) = split_nl t"
    using assms(3) by (simp add: map_idI)
  have "indents_of (split_nl t) = [] # indents_of ks"
    using sp c by (simp add: indents_of_def)
  then have "fold margin_step (indents_of (split_nl t)) None = Some []"
    by (simp add: fold_margin_step_Nil)
  then show ?thesis
    by (simp add: dedent_def same)
qed

lemma strip_lines_good:
  assumes "\<forall>l\<in>set (split_nl d). blank_ws_only l = l" and "l \<in> set (split_nl (strip d))"
  shows "blank_ws_only l = l"
proof (cases "strip d = []")
  case True
  with assms(2) show ?thesis by (simp add: blank_ws_only_def)
next
  case False
  let ?t = "strip d"
  from strip_decomp obtain a b where d: "d = a @ ?t @ b" by blast
  from strip_hd [OF False] have h: "\<not> is_sp_tab (hd ?t)" "hd ?t \<noteq> 10"
    using is_sp_tab_isspace by auto
  from strip_last [OF False] have e: "\<not> is_sp_tab (last ?t)" "last ?t \<noteq> 10"
    using is_sp_tab_isspace by auto
  have has: "\<And>x k. x \<in> set k \<Longrightarrow> \<not> is_sp_tab x \<Longrightarrow> blank_ws_only k = k"
    by (auto simp: blank_ws_only_def list_all_iff)
  from split_nl_cases [OF assms(2)] show ?thesis
  proof (elim disjE)
    assume "l = hd (split_nl ?t)"
    with split_nl_hd [OF False h(2)] h(1) show ?thesis by (metis has)
  next
    assume "l = last (split_nl ?t)"
    with split_nl_last [OF False e(2)] e(1) show ?thesis by (metis has)
  next
    assume "l \<in> set (tl (butlast (split_nl ?t)))"
    then have "l \<in> set (tl (split_nl (?t @ b)))"
      by (subst split_nl_append) (cases "butlast (split_nl ?t)", auto)
    then have "l \<in> set (split_nl (a @ ?t @ b))"
      using split_nl_later_lines [of "?t @ b" a] by blast
    with d assms(1) show ?thesis by simp
  qed
qed

subsection \<open>Lines of an indented text\<close>

lemma splitlines_plain_prefix:
  assumes "\<forall>c\<in>set q. \<not> is_linebreak c"
  shows "splitlines k (q @ r) =
           (case splitlines k r of [] \<Rightarrow> (if q = [] then [] else [q]) | l # ls \<Rightarrow> (q @ l) # ls)"
  using assms
proof (induction q)
  case Nil
  show ?case by (cases "splitlines k r") simp_all
next
  case (Cons c q)
  then have c: "\<not> is_linebreak c" and IH: "splitlines k (q @ r) =
      (case splitlines k r of [] \<Rightarrow> (if q = [] then [] else [q]) | l # ls \<Rightarrow> (q @ l) # ls)"
    by simp_all
  show ?case
  proof (cases "splitlines k r")
    case Nil
    with c IH show ?thesis by (cases "q = []") (simp_all add: splitlines_nb)
  next
    case (Cons l ls)
    with c IH show ?thesis by (simp add: splitlines_nb)
  qed
qed

lemma splitlines_keep_first:
  "splitlines True (c # cs) = k # ks \<Longrightarrow> \<exists>k'. k = c # k'"
proof (cases "is_linebreak c")
  case True
  assume "splitlines True (c # cs) = k # ks"
  with True show ?thesis
    by (cases cs; cases "c = 13 \<and> hd cs = 10") (auto simp: splitlines_unfold)
next
  case False
  assume "splitlines True (c # cs) = k # ks"
  with False show ?thesis
    by (cases "splitlines True cs") (auto simp: splitlines_nb)
qed

lemma concat_splitlines_keep: "concat (splitlines True t) = t"
proof (induction t rule: length_induct)
  case (1 t)
  then have IH: "\<And>u. length u < length t \<Longrightarrow> concat (splitlines True u) = u" by blast
  show ?case
  proof (cases t)
    case Nil
    then show ?thesis by simp
  next
    case t: (Cons c cs)
    show ?thesis
    proof (cases "is_linebreak c")
      case True
      show ?thesis
      proof (cases cs)
        case Nil
        with t True show ?thesis by (simp add: splitlines_lb_end)
      next
        case (Cons d ds)
        show ?thesis
        proof (cases "c = 13 \<and> d = 10")
          case True
          with t Cons IH [of ds] show ?thesis by (simp add: splitlines_crlf)
        next
          case False
          with t Cons \<open>is_linebreak c\<close> IH [of cs] show ?thesis by (simp add: splitlines_lb)
        qed
      qed
    next
      case False
      show ?thesis
      proof (cases "splitlines True cs")
        case Nil
        with t False show ?thesis by (simp add: splitlines_nb)
      next
        case (Cons l ls)
        with t False IH [of cs] show ?thesis by (simp add: splitlines_nb)
      qed
    qed
  qed
qed

lemma indented_lines:
  assumes p: "\<forall>c\<in>set p. \<not> is_linebreak c"
  shows "splitlines False (concat (map ((@) p) (splitlines True t)))
           = map ((@) p) (splitlines False t)"
proof (induction t rule: length_induct)
  case (1 t)
  then have IH: "\<And>u. length u < length t \<Longrightarrow>
      splitlines False (concat (map ((@) p) (splitlines True u))) = map ((@) p) (splitlines False u)"
    by blast
  let ?X = "\<lambda>u. concat (map ((@) p) (splitlines True u))"
  note Q = splitlines_plain_prefix [OF p]
  show ?case
  proof (cases t)
    case Nil
    then show ?thesis by simp
  next
    case t: (Cons c cs)
    show ?thesis
    proof (cases "is_linebreak c")
      case lb: True
      show ?thesis
      proof (cases cs)
        case Nil
        with t lb show ?thesis by (simp add: splitlines_lb_end Q)
      next
        case cs: (Cons d ds)
        show ?thesis
        proof (cases "c = 13 \<and> d = 10")
          case True
          with t cs IH [of ds] show ?thesis by (simp add: splitlines_crlf Q)
        next
          case False
          obtain k ks where sk: "splitlines True cs = k # ks"
            using cs by (cases "splitlines True cs") auto
          with cs splitlines_keep_first [of d ds k ks] obtain k' where k: "k = d # k'" by auto
          obtain e es where X: "?X cs = e # es" and e: "\<not> (c = 13 \<and> e = 10)"
          proof (cases p)
            case Nil
            with sk k False that [of d "k' @ concat (map ((@) p) ks)"] show ?thesis by simp
          next
            case (Cons a as)
            with p have "\<not> is_linebreak a" by simp
            then have "a \<noteq> 10" using is_linebreak_newline by metis
            with Cons sk that [of a "as @ k @ concat (map ((@) p) ks)"] show ?thesis by simp
          qed
          have "splitlines False (c # ?X cs) = [] # splitlines False (?X cs)"
            unfolding X using lb e by (simp add: splitlines_lb)
          moreover have "?X t = p @ c # ?X cs"
            using t cs lb False by (simp add: splitlines_lb)
          moreover have "splitlines False t = [] # splitlines False cs"
            using t cs lb False by (simp add: splitlines_lb)
          ultimately show ?thesis using IH [of cs] t by (simp add: Q)
        qed
      qed
    next
      case nb: False
      show ?thesis
      proof (cases cs)
        case Nil
        with t nb show ?thesis by (simp add: splitlines_nb Q)
      next
        case cs: (Cons d ds)
        obtain k ks where sk: "splitlines True cs = k # ks"
          using cs by (cases "splitlines True cs") auto
        obtain l ls where sl: "splitlines False cs = l # ls"
          using cs by (cases "splitlines False cs") auto
        let ?C = "concat (map ((@) p) ks)"
        from cs sk splitlines_keep_first [of d ds k ks] have kne: "k @ ?C \<noteq> []" by auto
        then obtain a as where sa: "splitlines False (k @ ?C) = a # as"
          by (cases "splitlines False (k @ ?C)") auto
        have "splitlines False (p @ k @ ?C) = (p @ l) # map ((@) p) ls"
          using IH [of cs] t sk sl by simp
        with sa have a: "a = l" and as: "as = map ((@) p) ls"
          by (simp_all add: Q)
        have pc: "\<forall>x\<in>set (p @ [c]). \<not> is_linebreak x" using p nb by simp
        have "?X t = (p @ [c]) @ k @ ?C" using t nb sk by (simp add: splitlines_nb)
        then have "splitlines False (?X t) = ((p @ [c]) @ a) # as"
          using sa by (simp only: splitlines_plain_prefix [OF pc] list.case)
        moreover have "splitlines False t = (c # l) # ls" using t nb sl by (simp add: splitlines_nb)
        ultimately show ?thesis using a as by simp
      qed
    qed
  qed
qed

lemma splitlines_keep_nonempty: "l \<in> set (splitlines True t) \<Longrightarrow> l \<noteq> []"
proof (induction t arbitrary: l rule: length_induct)
  case (1 t)
  then have IH: "\<And>u l. length u < length t \<Longrightarrow> l \<in> set (splitlines True u) \<Longrightarrow> l \<noteq> []"
    by blast
  show ?case
  proof (cases t)
    case Nil
    with 1 show ?thesis by simp
  next
    case t: (Cons c cs)
    show ?thesis
    proof (cases "is_linebreak c")
      case True
      show ?thesis
      proof (cases cs)
        case Nil
        with t True "1.prems" show ?thesis by (simp add: splitlines_lb_end)
      next
        case (Cons d ds)
        show ?thesis
        proof (cases "c = 13 \<and> d = 10")
          case True
          with t Cons "1.prems" IH [of ds l] show ?thesis
            by (auto simp: splitlines_crlf)
        next
          case False
          with t Cons \<open>is_linebreak c\<close> "1.prems" IH [of cs l] show ?thesis
            by (auto simp: splitlines_lb)
        qed
      qed
    next
      case False
      show ?thesis
      proof (cases "splitlines True cs")
        case Nil
        with t False "1.prems" show ?thesis by (simp add: splitlines_nb)
      next
        case (Cons k ks)
        with t False "1.prems" have "l = c # k \<or> l \<in> set ks" by (simp add: splitlines_nb)
        with IH [of cs l] Cons t show ?thesis by auto
      qed
    qed
  qed
qed

lemma last_concat_prefixed:
  assumes "ks \<noteq> []" and "last ks \<noteq> []"
  shows "last (concat (map ((@) p) ks)) = last (concat ks)"
proof -
  from assms(1) obtain ys y where ks: "ks = ys @ [y]" by (cases ks rule: rev_cases) auto
  with assms(2) have "y \<noteq> []" by simp
  with ks show ?thesis by simp
qed

lemma indent_shape:
  assumes "t \<noteq> []"
  shows "\<exists>r. indent t p (\<lambda>_. True) = p @ r \<and> r \<noteq> [] \<and> hd r = hd t \<and> last r = last t"
proof -
  from assms obtain c cs where t: "t = c # cs" by (cases t) auto
  obtain k ks where sk: "splitlines True t = k # ks"
    using assms by (cases "splitlines True t") auto
  with t splitlines_keep_first [of c cs k ks] obtain k' where k: "k = c # k'" by auto
  let ?r = "k @ concat (map ((@) p) ks)"
  have ind: "indent t p (\<lambda>_. True) = p @ ?r" by (simp add: indent_def sk)
  have hd: "hd ?r = hd t" using k t by simp
  have ne: "last (splitlines True t) \<noteq> []"
    using splitlines_keep_nonempty [of "last (splitlines True t)" t] sk by simp
  have "last (p @ ?r) = last (concat (map ((@) p) (splitlines True t)))"
    by (simp add: sk)
  also have "\<dots> = last (concat (splitlines True t))"
    using ne sk by (intro last_concat_prefixed) simp_all
  also have "\<dots> = last t" by (simp add: concat_splitlines_keep)
  finally have "last ?r = last t" using k by simp
  with ind hd k show ?thesis by blast
qed

lemma strip_indented:
  assumes "r \<noteq> []" and "\<not> isspace (hd r)" and "\<not> isspace (last r)"
  shows "strip (p @ r) = dropWhile isspace p @ r"
proof -
  have r: "dropWhile isspace r = r"
    using assms(2) by (simp add: dropWhile_eq_self_iff)
  have front: "dropWhile isspace (p @ r) = dropWhile isspace p @ r"
  proof (cases "\<forall>x\<in>set p. isspace x")
    case True
    then show ?thesis using r by simp
  next
    case False
    then show ?thesis by auto
  qed
  let ?y = "dropWhile isspace p @ r"
  have "hd (rev ?y) = last r" using assms(1) by (simp add: hd_rev)
  with assms(3) have "dropWhile isspace (rev ?y) = rev ?y"
    by (simp only: dropWhile_eq_self_iff) simp
  then show ?thesis
    unfolding strip_def front by (simp only: rev_rev_ident)
qed

lemma multipyline_inner_lines:
  assumes p: "\<forall>c\<in>set p. \<not> is_linebreak c"
  shows "splitlines False (multipyline_inner s p) =
           (case splitlines False (multipyline s) of
              [] \<Rightarrow> []
            | l # ls \<Rightarrow> (dropWhile isspace p @ l) # map ((@) p) ls)"
proof (cases "multipyline s = []")
  case True
  then show ?thesis by (simp add: multipyline_inner_def indent_def strip_def)
next
  case False
  let ?t = "multipyline s"
  have t: "?t = strip (dedent s)" by (simp add: multipyline_def)
  from False have h: "\<not> isspace (hd ?t)" and e: "\<not> isspace (last ?t)"
    unfolding t using strip_hd [of "dedent s"] strip_last [of "dedent s"] by blast+
  from indent_shape [OF False, of p] obtain r where
    ind: "indent ?t p (\<lambda>_. True) = p @ r" and r: "r \<noteq> []" "hd r = hd ?t" "last r = last ?t"
    by blast
  have res: "multipyline_inner s p = dropWhile isspace p @ r"
    unfolding multipyline_inner_def ind using r h e by (intro strip_indented) simp_all
  obtain l ls where sl: "splitlines False ?t = l # ls"
    using False by (cases "splitlines False ?t") auto
  obtain a as where sa: "splitlines False r = a # as"
    using r(1) by (cases "splitlines False r") auto
  have "splitlines False (p @ r) = map ((@) p) (splitlines False ?t)"
    using indented_lines [OF p, of ?t] ind by (simp add: indent_def)
  then have "(p @ a) # as = (p @ l) # map ((@) p) ls"
    using sa sl by (simp add: splitlines_plain_prefix [OF p])
  then have a: "a = l" and as: "as = map ((@) p) ls" by simp_all
  have p': "\<forall>c\<in>set (dropWhile isspace p). \<not> is_linebreak c"
    using p by (meson set_dropWhileD)
  show ?thesis
    unfolding res using sa sl a as by (simp add: splitlines_plain_prefix [OF p'])
qed

section \<open>The claims\<close>

text \<open>
  C2: for the template \<^verbatim>\<open>"    def fun():\n        {}"\<close> and the single two-line
  argument \<^verbatim>\<open>"a\nb"\<close>, \<open>multipylinef\<close> returns exactly \<^verbatim>\<open>"def fun():\n    a\n    b"\<close>:
  the second line of the argument is indented to the column of its first line.
\<close>

theorem C2_def_fun_example:
  "multipylinef (py ''    def fun():\<newline>        {}'') [py ''a\<newline>b'']
     = Inr (py ''def fun():\<newline>    a\<newline>    b'')"
  by (simp add: eval_defs)

text \<open>
  C8: for every string that is empty or consists of whitespace only, \<open>multipyline\<close>
  returns the empty string, and \<open>multipyline_inner\<close> returns the empty string for
  every prefix.
\<close>

theorem C8_blank_input:
  "list_all isspace s \<Longrightarrow> multipyline s = [] \<and> multipyline_inner s pre = []"
  by (simp add: multipyline_blank multipyline_inner_def indent_def strip_def)

theorem C8_blank_input_witness:
  "list_all isspace (py '' \<newline>   '') \<and> multipyline (py '' \<newline>   '') = []
     \<and> multipyline_inner (py '' \<newline>   '') (py ''>> '') = []"
  using C8_blank_input [of "py '' \<newline>   ''" "py ''>> ''"]
  by (simp add: py_def isspace_def)

text \<open>
  C1: in \<open>multipylinef\<close>, a line of the template with exactly one marker has its matched
  argument substituted: transformed by \<open>multipyline_inner\<close>, with the text of the line
  before the marker as prefix, when the argument has more than one line and the line,
  dedented on its own, starts with the marker, and unmodified in every other case.
  The code does not do so on every input. The loop finds the markers by a literal search
  for \<^verbatim>\<open>{}\<close>, whereas \<^verbatim>\<open>str.format\<close> reads \<^verbatim>\<open>{{\<close> and \<^verbatim>\<open>}}\<close> as escaped braces. For the
  template \<^verbatim>\<open>"{{}}\n    {}"\<close> and the arguments \<^verbatim>\<open>"a\nb"\<close>, \<^verbatim>\<open>"c"\<close> the loop matches the first
  line with \<^verbatim>\<open>"a\nb"\<close> (kept as it is, the line does not start with the marker) and the
  second line with \<^verbatim>\<open>"c"\<close>; \<^verbatim>\<open>str.format\<close> then prints the first line as the text \<^verbatim>\<open>{}\<close>
  and puts \<^verbatim>\<open>"a\nb"\<close> at the marker of the second line. The result has neither \<^verbatim>\<open>"c"\<close> at
  that marker nor \<^verbatim>\<open>"a\nb"\<close> indented to its column (\<^verbatim>\<open>"a\n    b"\<close>, the last conjunct).
\<close>

theorem C1_failing_input:
  "marker_lines (py ''{{}}\<newline>    {}'') = [py ''{{}}'', py ''    {}'']
   \<and> py_count TEMPLATE (py ''{{}}'') = 1 \<and> py_count TEMPLATE (py ''    {}'') = 1
   \<and> 1 < length (splitlines False (py ''a\<newline>b''))
   \<and> prefix TEMPLATE (dedent (py ''    {}''))
   \<and> format_args (splitlines False (py ''{{}}\<newline>    {}'')) [py ''a\<newline>b'', py ''c''] [[], []] 0
       = Inr [py ''a\<newline>b'', py ''c'']
   \<and> multipylinef (py ''{{}}\<newline>    {}'') [py ''a\<newline>b'', py ''c''] = Inr (py ''{}\<newline>    a\<newline>b'')
   \<and> multipylinef (py ''{{}}\<newline>    {}'') [py ''a\<newline>b'', py ''c''] \<noteq> Inr (py ''{}\<newline>    c'')
   \<and> multipyline_inner (py ''a\<newline>b'') (py ''    '') = py ''a\<newline>    b''"
  by (simp add: eval_defs)

text \<open>
  What the loop alone computes, on every template: when it runs to its end (no line has
  more than one marker and there is an argument for every line with a marker), the
  \<open>i\<close>-th line with a marker is matched with the \<open>i\<close>-th argument. If that argument
  has more than one line and the line, dedented on its own, starts with the marker,
  then the line is a run of spaces and tabs, the marker, and the rest, and the entry of
  \<^verbatim>\<open>formatted_args\<close> is \<open>multipyline_inner\<close> of the argument with that run as prefix. In
  every other case the entry is the argument as it is.
\<close>

theorem loop_argument_transformation:
  assumes "\<forall>l\<in>set (splitlines False s). py_count TEMPLATE l \<le> 1"
    and "length (marker_lines s) \<le> length args"
    and "i < length (marker_lines s)"
  shows "\<exists>fas. format_args (splitlines False s) args (replicate (length args) []) 0 = Inr fas
           \<and> (if 1 < length (splitlines False (args ! i))
                   \<and> prefix TEMPLATE (dedent (marker_lines s ! i))
               then \<exists>pre post. marker_lines s ! i = pre @ TEMPLATE @ post
                      \<and> list_all is_sp_tab pre
                      \<and> fas ! i = multipyline_inner (args ! i) pre
               else fas ! i = args ! i)"
proof -
  let ?ml = "marker_lines s"
  let ?fas = "map2 format_argument ?ml args @ drop (length ?ml) (replicate (length args) [])"
  have run: "format_args (splitlines False s) args (replicate (length args) []) 0 = Inr ?fas"
    using format_args_ok [of "splitlines False s" 0 args "replicate (length args) []"] assms(1,2)
    by (simp add: marker_lines_def)
  have at_i: "?fas ! i = format_argument (?ml ! i) (args ! i)"
    using assms(2,3) by (simp add: nth_append)
  have "?ml ! i \<in> set (splitlines False s)"
    using assms(3) nth_mem [of i ?ml] by (auto simp: marker_lines_def)
  then have nl: "10 \<notin> set (?ml ! i)" by (rule splitlines_no_newline)
  show ?thesis
  proof (cases "1 < length (splitlines False (args ! i)) \<and> prefix TEMPLATE (dedent (?ml ! i))")
    case True
    with marker_first_on_line [OF nl] obtain pre post where
      "?ml ! i = pre @ TEMPLATE @ post" "list_all is_sp_tab pre"
      "slice_to (?ml ! i) (py_find TEMPLATE (?ml ! i)) = pre"
      by blast
    with True at_i run show ?thesis
      by (auto simp: format_argument_def)
  next
    case False
    with at_i run show ?thesis
      by (auto simp: format_argument_def)
  qed
qed

theorem loop_argument_transformation_example:
  "py_count TEMPLATE (py ''    def fun():'') \<le> 1 \<and> py_count TEMPLATE (py ''        {}'') \<le> 1
   \<and> marker_lines (py ''    def fun():\<newline>        {}'') = [py ''        {}'']
   \<and> 1 < length (splitlines False (py ''a\<newline>b''))
   \<and> prefix TEMPLATE (dedent (py ''        {}''))
   \<and> format_args (splitlines False (py ''    def fun():\<newline>        {}'')) [py ''a\<newline>b''] [[]] 0
       = Inr [multipyline_inner (py ''a\<newline>b'') (py ''        '')]"
  using loop_argument_transformation
    [of "py ''    def fun():\<newline>        {}''" "[py ''a\<newline>b'']" 0]
  by (simp add: eval_defs)

text \<open>
  C3: a template with a line that holds more than one marker makes \<open>multipylinef\<close> fail
  with ValueError whatever the arguments are; the docstring of the function says the
  same (\<^verbatim>\<open>Raises: ValueError: If any single line contains multiple `{}` placeholders\<close>).
  The code does not do so on every input: the lines are scanned from the top, and for
  the template \<^verbatim>\<open>"{}\n{}{}"\<close> without arguments the first line, which has one marker,
  finds no argument and fails with IndexError before the line with two markers is
  reached.
\<close>

theorem C3_failing_input:
  "splitlines False (py ''{}\<newline>{}{}'') = [py ''{}'', py ''{}{}'']
   \<and> py_count TEMPLATE (py ''{}{}'') = 2
   \<and> multipylinef (py ''{}\<newline>{}{}'') [] = Inl IndexError
   \<and> multipylinef (py ''{}\<newline>{}{}'') [] \<noteq> Inl ValueError"
  by (simp add: eval_defs)

text \<open>
  What the code does on every template with such a line: it always fails, with
  ValueError when there are at least as many arguments as lines with a marker above the
  first line with more than one marker, and with IndexError otherwise.
\<close>

theorem multiple_markers_fail:
  assumes "\<exists>l\<in>set (splitlines False s). 1 < py_count TEMPLATE l"
  shows "multipylinef s args =
           (if length (filter (py_in TEMPLATE)
                  (takeWhile (\<lambda>l. py_count TEMPLATE l \<le> 1) (splitlines False s)))
                 \<le> length args
            then Inl ValueError else Inl IndexError)"
  using format_args_multiple [OF assms, of 0 args "replicate (length args) []"]
  by (simp add: multipylinef_def)

theorem multiple_markers_fail_example:
  "splitlines False (py ''{}\<newline>{} {}'') = [py ''{}'', py ''{} {}'']
   \<and> 1 < py_count TEMPLATE (py ''{} {}'')
   \<and> multipylinef (py ''{}\<newline>{} {}'') [py ''a''] = Inl ValueError
   \<and> multipylinef (py ''{}\<newline>{} {}'') [] = Inl IndexError"
  using multiple_markers_fail [of "py ''{}\<newline>{} {}''" "[py ''a'']"]
    multiple_markers_fail [of "py ''{}\<newline>{} {}''" "[]"]
  by (simp add: eval_defs)

text \<open>
  C4: when no line of the template has more than one marker and the template has more
  markers than there are arguments, \<open>multipylinef\<close> fails with IndexError; it returns no
  partial result.
\<close>

theorem C4_too_few_arguments:
  assumes "\<forall>l\<in>set (splitlines False s). py_count TEMPLATE l \<le> 1"
    and "length args < py_count TEMPLATE s"
  shows "multipylinef s args = Inl IndexError"
proof -
  have "length args < 0 + length (filter (py_in TEMPLATE) (splitlines False s))"
    using assms marker_lines_count [of s] by (simp add: marker_lines_def)
  from format_args_IndexError [OF assms(1) this, of "replicate (length args) []"]
  show ?thesis by (simp add: multipylinef_def)
qed

theorem C4_too_few_arguments_witness:
  "splitlines False (py ''x {}\<newline>{}'') = [py ''x {}'', py ''{}'']
   \<and> py_count TEMPLATE (py ''x {}'') \<le> 1 \<and> py_count TEMPLATE (py ''{}'') \<le> 1
   \<and> length [py ''a''] < py_count TEMPLATE (py ''x {}\<newline>{}'')
   \<and> multipylinef (py ''x {}\<newline>{}'') [py ''a''] = Inl IndexError"
  using C4_too_few_arguments [of "py ''x {}\<newline>{}''" "[py ''a'']"]
  by (simp add: eval_defs)

text \<open>
  C5, as stated: a template without the marker is returned as \<open>multipyline\<close> of it,
  whatever the arguments are. It is not: the template still goes through
  \<^verbatim>\<open>str.format\<close>, which turns the escape \<^verbatim>\<open>{{\<close> into one brace.
\<close>

theorem C5_counterexample:
  "\<not> py_in TEMPLATE (py ''{{'')
   \<and> multipylinef (py ''{{'') [] = Inr (py ''{'')
   \<and> multipyline (py ''{{'') = py ''{{''
   \<and> multipylinef (py ''{{'') [] \<noteq> Inr (multipyline (py ''{{''))"
  by (simp add: eval_defs)

text \<open>
  C5, amended: for every template without any brace character, and every argument list,
  \<open>multipylinef\<close> returns \<open>multipyline\<close> of the template.
\<close>

theorem C5_no_braces:
  assumes "123 \<notin> set s" and "125 \<notin> set s"
  shows "multipylinef s args = Inr (multipyline s)"
proof -
  have "format_args (splitlines False s) args (replicate (length args) []) 0
          = Inr (replicate (length args) [])"
    using assms(1) by (intro format_args_no_marker no_marker_lines py_count_no_brace)
  then show ?thesis
    using assms by (simp add: multipylinef_def py_format_plain)
qed

theorem C5_no_braces_witness:
  "123 \<notin> set (py ''  a\<newline>   b'') \<and> 125 \<notin> set (py ''  a\<newline>   b'')
   \<and> multipylinef (py ''  a\<newline>   b'') [py ''x''] = Inr (py ''a\<newline> b'')"
  using C5_no_braces [of "py ''  a\<newline>   b''" "[py ''x'']"]
  by (simp add: eval_defs)




text \<open>
  When every brace of the template belongs to a marker, the call with the first \<open>k\<close>
  arguments does succeed, and so does the call with all of them.
\<close>

theorem excess_arguments_succeed:
  assumes "only_marker_braces s"
    and "\<forall>l\<in>set (splitlines False s). py_count TEMPLATE l \<le> 1"
    and "py_count TEMPLATE s < length args"
  shows "\<exists>r. multipylinef s args = Inr r
           \<and> multipylinef s (take (py_count TEMPLATE s) args) = Inr r"
proof -
  let ?k = "py_count TEMPLATE s"
  let ?ls = "splitlines False s"
  let ?ml = "filter (py_in TEMPLATE) ?ls"
  have k: "length ?ml = ?k"
    using marker_lines_count [OF assms(2)] by (simp add: marker_lines_def)
  let ?fa = "map2 format_argument ?ml args"
  have len: "length ?fa = ?k" using k assms(3) by simp
  have zip: "zip ?ml (take ?k args) = zip ?ml args"
    using k zip_take_right [of ?ml args] by simp
  have run1: "format_args ?ls args (replicate (length args) []) 0
                = Inr (?fa @ replicate (length args - ?k) [])"
    using format_args_ok [OF assms(2), of 0 args "replicate (length args) []"] k assms(3)
    by simp
  have run2: "format_args ?ls (take ?k args) (replicate (length (take ?k args)) []) 0 = Inr ?fa"
    using format_args_ok [OF assms(2), of 0 "take ?k args" "replicate (length (take ?k args)) []"]
      k assms(3) zip
    by simp
  have "py_count TEMPLATE s \<le> length ?fa" using len by (simp only: order_refl)
  from py_format_succeeds [OF assms(1) this]
  obtain r where r: "py_format s ?fa = Inr r" by blast
  have "py_format s (?fa @ replicate (length args - ?k) []) = Inr r"
    using r by (rule py_format_extra_args)
  with r run1 run2 show ?thesis
    by (simp add: multipylinef_def)
qed

theorem excess_arguments_succeed_example:
  "only_marker_braces (py ''  x:\<newline>    {}'')
   \<and> splitlines False (py ''  x:\<newline>    {}'') = [py ''  x:'', py ''    {}'']
   \<and> py_count TEMPLATE (py ''  x:'') \<le> 1 \<and> py_count TEMPLATE (py ''    {}'') \<le> 1
   \<and> py_count TEMPLATE (py ''  x:\<newline>    {}'') = 1
   \<and> multipylinef (py ''  x:\<newline>    {}'') [py ''a\<newline>b'', py ''c''] = Inr (py ''x:\<newline>  a\<newline>  b'')
   \<and> multipylinef (py ''  x:\<newline>    {}'') [py ''a\<newline>b''] = Inr (py ''x:\<newline>  a\<newline>  b'')"
  using excess_arguments_succeed [of "py ''  x:\<newline>    {}''" "[py ''a\<newline>b'', py ''c'']"]
  by (simp add: eval_defs)

text \<open>
  C9: in a template with two markers on two lines the upper marker is replaced by the
  first argument and the lower one by the second, whatever the arguments are. The code
  does not do so on every input. The loop finds the markers by a literal search for
  \<^verbatim>\<open>{}\<close>, whereas \<^verbatim>\<open>str.format\<close> reads \<^verbatim>\<open>{{\<close> and \<^verbatim>\<open>}}\<close> as escaped braces: for the template
  \<^verbatim>\<open>"{{}}\n{}"\<close> the loop takes both lines for lines with a marker and matches them with
  the first and the second argument, \<^verbatim>\<open>str.format\<close> prints the first line as the text
  \<^verbatim>\<open>{}\<close>, and the marker of the second line receives the first argument; the second
  argument appears nowhere.
\<close>

theorem C9_failing_input:
  "marker_lines (py ''{{}}\<newline>{}'') = [py ''{{}}'', py ''{}'']
   \<and> py_count TEMPLATE (py ''{{}}'') = 1 \<and> py_count TEMPLATE (py ''{}'') = 1
   \<and> multipylinef (py ''{{}}\<newline>{}'') [py ''a'', py ''b''] = Inr (py ''{}\<newline>a'')"
  by (simp add: eval_defs)

text \<open>
  Where no brace stands outside the two markers the substitution is positional: for a
  template made of two markers with brace-free text before, between and after them, the
  text between them holding a line boundary, the template has two lines with a marker,
  and the result is \<open>multipyline\<close> of the template with the upper marker replaced by the
  first argument and the lower marker by the second, each argument as the loop prepared
  it for its line (\<open>format_argument\<close>).
\<close>

theorem two_markers_positional:
  assumes "123 \<notin> set pre" and "125 \<notin> set pre"
    and "123 \<notin> set mid" and "125 \<notin> set mid"
    and "123 \<notin> set post" and "125 \<notin> set post"
    and "\<exists>c\<in>set mid. is_linebreak c"
    and "s = pre @ TEMPLATE @ mid @ TEMPLATE @ post"
  shows "length (marker_lines s) = 2
         \<and> multipylinef s [a, b] =
             Inr (multipyline (pre @ format_argument (marker_lines s ! 0) a @ mid
                                @ format_argument (marker_lines s ! 1) b @ post))"
proof -
  from two_marker_lines [OF assms(1,3,5,7)] assms(8)
  have le: "\<forall>l\<in>set (splitlines False s). py_count TEMPLATE l \<le> 1"
    and two: "length (marker_lines s) = 2"
    by simp_all
  then obtain l1 l2 where ml: "marker_lines s = [l1, l2]"
    by (cases "marker_lines s"; cases "tl (marker_lines s)") auto
  have "format_args (splitlines False s) [a, b] (replicate (length [a, b]) []) 0
          = Inr [format_argument l1 a, format_argument l2 b]"
    using format_args_ok [OF le, of 0 "[a, b]" "replicate (length [a, b]) []"] ml
    by (simp add: marker_lines_def)
  moreover have "py_format s [format_argument l1 a, format_argument l2 b]
      = Inr (pre @ format_argument l1 a @ mid @ format_argument l2 b @ post)"
    unfolding assms(8) by (rule py_format_two_markers [OF assms(1-6)])
  ultimately show ?thesis
    using two ml by (simp add: multipylinef_def)
qed

theorem two_markers_positional_example:
  "123 \<notin> set (py ''f:\<newline>  '') \<and> 125 \<notin> set (py ''f:\<newline>  '')
   \<and> 123 \<notin> set (py ''\<newline>  '') \<and> 125 \<notin> set (py ''\<newline>  '')
   \<and> is_linebreak 10 \<and> 10 \<in> set (py ''\<newline>  '')
   \<and> marker_lines (py ''f:\<newline>  {}\<newline>  {}'') = [py ''  {}'', py ''  {}'']
   \<and> multipylinef (py ''f:\<newline>  {}\<newline>  {}'') [py ''a\<newline>b'', py ''c'']
       = Inr (py ''f:\<newline>  a\<newline>  b\<newline>  c'')"
  using two_markers_positional
    [of "py ''f:\<newline>  ''" "py ''\<newline>  ''" "[]" "py ''f:\<newline>  {}\<newline>  {}''" "py ''a\<newline>b''" "py ''c''"]
  by (simp add: eval_defs)

text \<open>
  C7: \<open>multipyline\<close> is idempotent: applying it to its own result changes nothing.
\<close>

theorem C7_multipyline_idempotent: "multipyline (multipyline s) = multipyline s"
proof (cases "multipyline s = []")
  case True
  have "multipyline [] = []" by (simp add: eval_defs)
  with True show ?thesis by (simp only:)
next
  case False
  let ?t = "multipyline s"
  have t: "?t = strip (dedent s)" by (simp add: multipyline_def)
  have good: "\<forall>l\<in>set (split_nl ?t). blank_ws_only l = l"
    unfolding t using strip_lines_good [of "dedent s"] dedent_lines_good [of _ s] by blast
  have "\<not> isspace (hd ?t)" using False strip_hd [of "dedent s"] by (simp add: t)
  with False good have "dedent ?t = ?t" by (intro dedent_fixed)
  moreover have "strip ?t = ?t" unfolding t by (rule strip_idem)
  ultimately show ?thesis by (simp add: multipyline_def)
qed

text \<open>
  C6, as stated: for every string and every prefix of arbitrary content, every non-blank
  line of \<open>multipyline_inner s pre\<close> after the first starts with the prefix, and the final
  strip removes the prefix of the first line. Neither holds for every prefix: a prefix
  with a line boundary in it is spread over two lines of the result, and a prefix that
  is not whitespace stays on the first line.
\<close>

theorem C6_counterexample:
  "splitlines False (multipyline_inner (py ''a\<newline>b'') (py ''x\<newline>y''))
     = [py ''x'', py ''ya'', py ''x'', py ''yb'']
   \<and> \<not> later_lines_start_with (py ''x\<newline>y'') (multipyline_inner (py ''a\<newline>b'') (py ''x\<newline>y''))
   \<and> multipyline_inner (py ''a\<newline>b'') (py ''> '') = py ''> a\<newline>> b''"
  by (simp add: eval_defs later_lines_start_with_def)

text \<open>
  C6, amended: for every string and every prefix without a line boundary, every line of
  \<open>multipyline_inner s pre\<close> after the first starts with the prefix (so every non-blank
  one does); and when the prefix is whitespace only, the final strip removes it from the
  first line: the lines of the result are the first line of \<open>multipyline s\<close> as it is,
  followed by the other lines of \<open>multipyline s\<close> with the prefix put before each.
\<close>

theorem C6_later_lines_prefixed:
  assumes "\<forall>c\<in>set pre. \<not> is_linebreak c"
  shows "later_lines_start_with pre (multipyline_inner s pre)
         \<and> list_all (prefix pre) (tl (splitlines False (multipyline_inner s pre)))
         \<and> (list_all isspace pre \<longrightarrow>
              splitlines False (multipyline_inner s pre) =
                (case splitlines False (multipyline s) of
                   [] \<Rightarrow> []
                 | l # ls \<Rightarrow> l # map ((@) pre) ls))"
proof -
  note lines = multipyline_inner_lines [OF assms, of s]
  have later: "list_all (prefix pre) (tl (splitlines False (multipyline_inner s pre)))"
    unfolding lines by (cases "splitlines False (multipyline s)") (simp_all add: list_all_iff)
  then have "later_lines_start_with pre (multipyline_inner s pre)"
    by (simp add: later_lines_start_with_def list_all_iff)
  moreover have "splitlines False (multipyline_inner s pre) =
      (case splitlines False (multipyline s) of [] \<Rightarrow> [] | l # ls \<Rightarrow> l # map ((@) pre) ls)"
    if "list_all isspace pre"
  proof -
    from that have "dropWhile isspace pre = []" by (simp add: list_all_iff)
    with lines show ?thesis by (cases "splitlines False (multipyline s)") simp_all
  qed
  ultimately show ?thesis using later by blast
qed

theorem C6_later_lines_prefixed_witness:
  "\<not> is_linebreak 32 \<and> list_all isspace (py ''  '')
   \<and> multipyline_inner (py '' a\<newline>   b\<newline>\<newline> c'') (py ''  '') = py ''a\<newline>    b\<newline>  \<newline>  c''
   \<and> splitlines False (multipyline_inner (py '' a\<newline>   b\<newline>\<newline> c'') (py ''  ''))
       = [py ''a'', py ''    b'', py ''  '', py ''  c'']
   \<and> later_lines_start_with (py ''  '') (multipyline_inner (py '' a\<newline>   b\<newline>\<newline> c'') (py ''  ''))"
  using C6_later_lines_prefixed [of "py ''  ''" "py '' a\<newline>   b\<newline>\<newline> c''"]
  by (simp add: eval_defs later_lines_start_with_def)

end
